theory Spec2Isabelle
  imports Complex_Main "HOL-Library.Char_ord"
begin

section \<open>Synthetic corruption and the fixed-width codec of shcomplete\<close>

text \<open>
  A shallow embedding of \<^verbatim>\<open>shcomplete/seq2seq_correction.py\<close>: the character inventory
  (\<^verbatim>\<open>get_chars\<close>), the mistake injector (\<^verbatim>\<open>create_mistakes\<close>), the codec
  (\<^verbatim>\<open>Seq2seq\<close>) and the batch generator (\<^verbatim>\<open>generator\<close>).
  Text is a \<open>string\<close> of HOL characters ordered by their code (\<open>Char_ord\<close>), a tensor is
  a nested list of booleans, and every exception the Python can raise is a value of
  \<open>error\<close>, returned as \<open>Inl\<close>.
\<close>

subsection \<open>Errors\<close>

datatype error = KeyError | IndexError | ValueError | AssertionError

subsection \<open>The codec: constructor\<close>

text \<open>
  \<^verbatim>\<open>dict(pairs)\<close>: the pairs are stored from left to right, a later pair overwriting an
  earlier one with the same key.
\<close>

definition dict :: "('k \<times> 'v) list \<Rightarrow> ('k \<rightharpoonup> 'v)" where
  "dict kvs = fold (\<lambda>kv m. m(fst kv \<mapsto> snd kv)) kvs Map.empty"

text \<open>
  \<^verbatim>\<open>self.chars = sorted(set(chars))\<close>,
  \<^verbatim>\<open>self.char_indices = dict((c, i) for i, c in enumerate(self.chars))\<close>,
  \<^verbatim>\<open>self.indices_char = dict((i, c) for i, c in enumerate(self.chars))\<close>.
\<close>

record seq2seq =
  self_chars :: string
  char_indices :: "char \<rightharpoonup> nat"
  indices_char :: "nat \<rightharpoonup> char"

definition Seq2seq_init :: "string \<Rightarrow> seq2seq" where
  "Seq2seq_init cs =
     (let sorted_chars = sorted_list_of_set (set cs) in
      \<lparr> self_chars = sorted_chars,
        char_indices = dict (map (\<lambda>ic. (snd ic, fst ic)) (enumerate 0 sorted_chars)),
        indices_char = dict (enumerate 0 sorted_chars) \<rparr>)"

subsection \<open>The codec: encode\<close>

text \<open>
  A tensor of shape \<open>(b, m, a)\<close> is a list of \<open>b\<close> rows, each a list of \<open>m\<close> slots,
  each a list of \<open>a\<close> booleans. \<^verbatim>\<open>np.zeros((b, m, a), dtype=np.bool)\<close>:
\<close>

type_synonym tensor = "bool list list list"

definition zeros :: "nat \<Rightarrow> nat \<Rightarrow> nat \<Rightarrow> tensor" where
  "zeros b m a = replicate b (replicate m (replicate a False))"

definition has_shape :: "tensor \<Rightarrow> nat \<times> nat \<times> nat \<Rightarrow> bool" where
  "has_shape X s =
     (case s of (b, m, a) \<Rightarrow>
        length X = b \<and> list_all (\<lambda>row. length row = m \<and> list_all (\<lambda>slot. length slot = a) row) X)"

text \<open>
  \<^verbatim>\<open>X[i, j, k] = 1\<close>: numpy raises IndexError when an index is not below its dimension
  (the indices here are never negative).
\<close>

definition setitem :: "tensor \<Rightarrow> nat \<Rightarrow> nat \<Rightarrow> nat \<Rightarrow> error + tensor" where
  "setitem X i j k =
     (if i < length X \<and> j < length (X ! i) \<and> k < length (X ! i ! j)
      then Inr (X[i := (X ! i)[j := (X ! i ! j)[k := True]]])
      else Inl IndexError)"

text \<open>
  The inner loop \<^verbatim>\<open>for j, char in enumerate(cmd)\<close>. The subscript
  \<^verbatim>\<open>self.char_indices[char]\<close> is evaluated before the write, so an unknown character
  raises KeyError first, which the \<^verbatim>\<open>except KeyError: pass\<close> swallows; an IndexError of
  the write is not caught and leaves the function.
\<close>

fun encode_cmd :: "seq2seq \<Rightarrow> nat \<Rightarrow> nat \<Rightarrow> string \<Rightarrow> tensor \<Rightarrow> error + tensor" where
  "encode_cmd self i j [] X = Inr X"
| "encode_cmd self i j (char # cmd) X =
     (case char_indices self char of
        None \<Rightarrow> encode_cmd self i (Suc j) cmd X
      | Some k \<Rightarrow>
          (case setitem X i j k of
             Inl e \<Rightarrow> Inl e
           | Inr X' \<Rightarrow> encode_cmd self i (Suc j) cmd X'))"

text \<open>The outer loop \<^verbatim>\<open>for i, cmd in enumerate(commands)\<close>.\<close>

fun encode_cmds :: "seq2seq \<Rightarrow> nat \<Rightarrow> string list \<Rightarrow> tensor \<Rightarrow> error + tensor" where
  "encode_cmds self i [] X = Inr X"
| "encode_cmds self i (cmd # commands) X =
     (case encode_cmd self i 0 cmd X of
        Inl e \<Rightarrow> Inl e
      | Inr X' \<Rightarrow> encode_cmds self (Suc i) commands X')"

definition encode :: "seq2seq \<Rightarrow> string list \<Rightarrow> nat \<Rightarrow> error + tensor" where
  "encode self commands max_cmd_len =
     encode_cmds self 0 commands
       (zeros (length commands) max_cmd_len (length (self_chars self)))"

subsection \<open>The codec: decode\<close>

text \<open>
  \<^verbatim>\<open>decode\<close> is called with \<^verbatim>\<open>reduction=True\<close> on a matrix (one row of the tensor
  \<^verbatim>\<open>encode\<close> builds: a slot of booleans per position) and with \<^verbatim>\<open>reduction=False\<close> on
  a vector of class indices (\<^verbatim>\<open>sample_prediction\<close>). The rank of the argument stands for
  the flag: \<open>Matrix X\<close> is a call with \<^verbatim>\<open>reduction=True\<close>, \<open>Vector X\<close> a call with
  \<^verbatim>\<open>reduction=False\<close>.
\<close>

datatype ndarray = Matrix "bool list list" | Vector "nat list"

text \<open>
  \<^verbatim>\<open>argmax\<close> of a boolean vector: the index of the first \<open>True\<close>, and \<open>0\<close> when there
  is none (the first of the equal maxima); numpy raises ValueError on an empty vector.
\<close>

definition argmax :: "bool list \<Rightarrow> error + nat" where
  "argmax v =
     (if v = [] then Inl ValueError
      else Inr (if True \<in> set v then length (takeWhile (\<lambda>b. \<not> b) v) else 0))"

text \<open>\<^verbatim>\<open>X.argmax(axis=-1)\<close> on a matrix: one index per slot.\<close>

fun argmax_rows :: "bool list list \<Rightarrow> error + nat list" where
  "argmax_rows [] = Inr []"
| "argmax_rows (v # vs) =
     (case argmax v of
        Inl e \<Rightarrow> Inl e
      | Inr k \<Rightarrow> (case argmax_rows vs of Inl e \<Rightarrow> Inl e | Inr ks \<Rightarrow> Inr (k # ks)))"

text \<open>\<^verbatim>\<open>np.nonzero(X)\<close> on a vector: the positions of its non-zero entries.\<close>

definition nonzero :: "nat list \<Rightarrow> nat list" where
  "nonzero X = filter (\<lambda>i. X ! i \<noteq> 0) [0..<length X]"

text \<open>
  \<^verbatim>\<open>np.amax\<close> and \<^verbatim>\<open>np.amin\<close>: numpy raises ValueError on an array without elements
  (a reduction with no identity).
\<close>

definition amax :: "nat list \<Rightarrow> error + nat" where
  "amax ns = (if ns = [] then Inl ValueError else Inr (Max (set ns)))"

definition amin :: "nat list \<Rightarrow> error + nat" where
  "amin ns = (if ns = [] then Inl ValueError else Inr (Min (set ns)))"

text \<open>
  The loop \<^verbatim>\<open>for i in range(...): command += self.indices_char[X[i]]\<close>: reading \<open>X\<close>
  out of range raises IndexError, an index that is no key of \<^verbatim>\<open>indices_char\<close> raises
  KeyError.
\<close>

fun append_chars :: "seq2seq \<Rightarrow> nat list \<Rightarrow> nat list \<Rightarrow> string \<Rightarrow> error + string" where
  "append_chars self X [] command = Inr command"
| "append_chars self X (i # is) command =
     (if i < length X
      then (case indices_char self (X ! i) of
              None \<Rightarrow> Inl KeyError
            | Some c \<Rightarrow> append_chars self X is (command @ [c]))
      else Inl IndexError)"

fun decode :: "seq2seq \<Rightarrow> ndarray \<Rightarrow> nat \<Rightarrow> bool \<Rightarrow> error + string" where
  "decode self (Matrix X) max_cmd_len inverted =
     (case argmax_rows X of
        Inl e \<Rightarrow> Inl e
      | Inr X' \<Rightarrow>
          if inverted then
            (case amin (nonzero X') of
               Inl e \<Rightarrow> Inl e
             | Inr begin_of_command \<Rightarrow>
                 append_chars self X' [begin_of_command..<max_cmd_len] [])
          else
            (case amax (nonzero X') of
               Inl e \<Rightarrow> Inl e
             | Inr end_of_command \<Rightarrow>
                 append_chars self X' [0..<end_of_command + 1] []))"
| "decode self (Vector X) max_cmd_len inverted =
     (if length (nonzero X) \<noteq> 0 then
        (case amax (nonzero X) of
           Inl e \<Rightarrow> Inl e
         | Inr end_of_command \<Rightarrow> append_chars self X [0..<end_of_command + 1] [])
      else Inr [])"

subsection \<open>The character inventory\<close>

text \<open>
  \<^verbatim>\<open>str.rstrip()\<close> and \<^verbatim>\<open>str.strip()\<close> remove the characters for which
  \<^verbatim>\<open>str.isspace\<close> holds; among the codes below 256 these are 9 to 13, 28 to 32, 133 and 160.
\<close>

definition isspace :: "char \<Rightarrow> bool" where
  "isspace c = (of_char c \<in> set [9, 10, 11, 12, 13, 28, 29, 30, 31, 32, 133, 160 :: nat])"

definition rstrip :: "string \<Rightarrow> string" where
  "rstrip s = rev (dropWhile isspace (rev s))"

definition strip :: "string \<Rightarrow> string" where
  "strip s = dropWhile isspace (rstrip s)"

text \<open>
  \<^verbatim>\<open>get_chars\<close> gathers the characters of every line in a Python set and returns
  \<^verbatim>\<open>list(chars)\<close>. The order in which a set is listed is not fixed by the language (it
  follows the hashes of the elements, which for strings change from run to run), so it is a
  parameter of the model: \<open>list_of\<close> lists a set in some order, each element once.
\<close>

definition iteration_order :: "(char set \<Rightarrow> char list) \<Rightarrow> bool" where
  "iteration_order list_of = (\<forall>S. finite S \<longrightarrow> set (list_of S) = S \<and> distinct (list_of S))"

definition get_chars :: "(char set \<Rightarrow> char list) \<Rightarrow> string list \<Rightarrow> string" where
  "get_chars list_of f = list_of (fold (\<lambda>line cs. cs \<union> set (rstrip line)) f {})"

subsection \<open>The mistake injector\<close>

text \<open>
  The outcomes of the random draws of one call, in the order of the call sites:
  \<^verbatim>\<open>randint(len(mistakes))\<close>, \<^verbatim>\<open>rand()\<close>, \<^verbatim>\<open>randint(len(prefix))\<close>,
  \<^verbatim>\<open>choice(chars)\<close> and \<^verbatim>\<open>randint(len(command) - 1)\<close>. A draw is a raw natural number;
  \<open>randint\<close> and \<open>choice\<close> reduce it into their range, so that every draw is an outcome
  numpy can produce and every value of the range is the outcome of a draw.
\<close>

record draws =
  ind_draw :: nat
  rand_draw :: real
  char_pos_draw :: nat
  choice_draw :: nat
  transposition_draw :: nat

text \<open>\<^verbatim>\<open>randint(high)\<close> draws from \<open>[0, high)\<close> and raises ValueError when \<open>high \<le> 0\<close>.\<close>

definition randint :: "int \<Rightarrow> nat \<Rightarrow> error + nat" where
  "randint high d = (if high \<le> 0 then Inl ValueError else Inr (d mod nat high))"

text \<open>\<^verbatim>\<open>choice(a)\<close> draws an element of \<open>a\<close> and raises ValueError when \<open>a\<close> is empty.\<close>

definition choice :: "'a list \<Rightarrow> nat \<Rightarrow> error + 'a" where
  "choice a d = (if a = [] then Inl ValueError else Inr (a ! (d mod length a)))"

text \<open>\<^verbatim>\<open>command[i]\<close> for an index that is not negative.\<close>

definition getitem :: "'a list \<Rightarrow> nat \<Rightarrow> error + 'a" where
  "getitem xs i = (if i < length xs then Inr (xs ! i) else Inl IndexError)"

text \<open>
  \<^verbatim>\<open>mistakes = {0: "swap", 1: "delition", 2: "addition", 3: "transposition"}\<close>, a
  dictionary with the keys \<open>0\<close> to \<open>3\<close>.
\<close>

datatype mistake = Swap | Delition | Addition | Transposition

definition mistakes :: "mistake list" where
  "mistakes = [Swap, Delition, Addition, Transposition]"

text \<open>
  \<open>vocab_trie\<close> is the first component of \<^verbatim>\<open>vocab_trie.longest_prefix(command)\<close>:
  the prefix found, or \<open>None\<close>.
\<close>

definition create_mistakes ::
  "string \<Rightarrow> string \<Rightarrow> (string \<Rightarrow> string option) \<Rightarrow> real \<Rightarrow> draws \<Rightarrow> error + string" where
  "create_mistakes cs command vocab_trie level_of_noise rs =
     (case randint (int (length mistakes)) (ind_draw rs) of
        Inl e \<Rightarrow> Inl e
      | Inr ind \<Rightarrow>
          (case vocab_trie command of
             None \<Rightarrow> Inr command
           | Some pre \<Rightarrow>
               if rand_draw rs < level_of_noise then
                 (case randint (int (length pre)) (char_pos_draw rs) of
                    Inl e \<Rightarrow> Inl e
                  | Inr char_pos \<Rightarrow>
                      (case mistakes ! ind of
                         Swap \<Rightarrow>
                           (case choice cs (choice_draw rs) of
                              Inl e \<Rightarrow> Inl e
                            | Inr c \<Rightarrow>
                                Inr (take char_pos command @ [c] @ drop (char_pos + 1) command))
                       | Delition \<Rightarrow>
                           Inr (take char_pos command @ drop (char_pos + 1) command)
                       | Addition \<Rightarrow>
                           (case choice cs (choice_draw rs) of
                              Inl e \<Rightarrow> Inl e
                            | Inr c \<Rightarrow>
                                Inr (take char_pos command @ [c] @ drop char_pos command))
                       | Transposition \<Rightarrow>
                           (case randint (int (length command) - 1) (transposition_draw rs) of
                              Inl e \<Rightarrow> Inl e
                            | Inr char_pos' \<Rightarrow>
                                (case getitem command (char_pos' + 1) of
                                   Inl e \<Rightarrow> Inl e
                                 | Inr right \<Rightarrow>
                                     (case getitem command char_pos' of
                                        Inl e \<Rightarrow> Inl e
                                      | Inr left \<Rightarrow>
                                          Inr (take char_pos' command @ [right] @ [left] @
                                               drop (char_pos' + 2) command))))))
               else Inr command))"

subsection \<open>The batch generator\<close>

record gconfig =
  cfg_max_cmd_len :: nat
  cfg_padding :: string
  cfg_level_of_noise :: real
  cfg_batch_size :: nat
  cfg_inverted :: bool

text \<open>\<^verbatim>\<open>s * n\<close> on a string: \<open>n\<close> copies of \<open>s\<close>, none when \<open>n \<le> 0\<close>.\<close>

definition str_mul :: "string \<Rightarrow> int \<Rightarrow> string" where
  "str_mul s n = concat (replicate (nat n) s)"

definition generate_input ::
  "string \<Rightarrow> string \<Rightarrow> (string \<Rightarrow> string option) \<Rightarrow> gconfig \<Rightarrow> draws \<Rightarrow>
     error + (string \<times> string)" where
  "generate_input cs command vocab_trie g rs =
     (case create_mistakes cs command vocab_trie (cfg_level_of_noise g) rs of
        Inl e \<Rightarrow> Inl e
      | Inr misspelled_command \<Rightarrow>
          Inr (misspelled_command @
                 str_mul (cfg_padding g)
                   (int (cfg_max_cmd_len g) - int (length misspelled_command)),
               command @
                 str_mul (cfg_padding g) (int (cfg_max_cmd_len g) - int (length command))))"

text \<open>
  The corpus filter
  \<^verbatim>\<open>[cmd.strip() for cmd in f.readlines() if cmd != file_delimiter and len(cmd) <= max_cmd_len]\<close>.
  The lines that \<^verbatim>\<open>readlines\<close> returns keep their line terminator.
\<close>

definition corpus_lines :: "string list \<Rightarrow> string \<Rightarrow> nat \<Rightarrow> string list" where
  "corpus_lines f file_delimiter max_cmd_len =
     map strip (filter (\<lambda>cmd. cmd \<noteq> file_delimiter \<and> length cmd \<le> max_cmd_len) f)"

text \<open>
  The draws of one pass of \<^verbatim>\<open>for _ in range(batch_size)\<close>: the one of
  \<^verbatim>\<open>choice(lines)\<close> and those of \<^verbatim>\<open>create_mistakes\<close>.
\<close>

record sample_draws =
  line_draw :: nat
  mistake_draws :: draws

fun sample_loop ::
  "string \<Rightarrow> string list \<Rightarrow> (string \<Rightarrow> string option) \<Rightarrow> gconfig \<Rightarrow> sample_draws list \<Rightarrow>
     string list \<times> string list \<Rightarrow> error + (string list \<times> string list)" where
  "sample_loop cs lines vocab_trie g [] (commands, misspelled_commands) =
     Inr (commands, misspelled_commands)"
| "sample_loop cs lines vocab_trie g (rs # rss) (commands, misspelled_commands) =
     (case choice lines (line_draw rs) of
        Inl e \<Rightarrow> Inl e
      | Inr command \<Rightarrow>
          (case generate_input cs command vocab_trie g (mistake_draws rs) of
             Inl e \<Rightarrow> Inl e
           | Inr (misspelled_command, command') \<Rightarrow>
               if length command' \<noteq> cfg_max_cmd_len g then Inl AssertionError
               else sample_loop cs lines vocab_trie g rss
                      (commands @ [command'],
                       misspelled_commands @
                         [if cfg_inverted g then rev misspelled_command
                          else misspelled_command])))"

text \<open>
  One pass of \<^verbatim>\<open>while True\<close>, from opening the corpus to the \<^verbatim>\<open>yield\<close>. \<open>f\<close> is what
  \<^verbatim>\<open>readlines\<close> returns in this pass and \<open>rs k\<close> are the draws of the \<open>k\<close>-th sample. The
  two buffers are empty when a pass starts: they are created empty and emptied before every
  \<^verbatim>\<open>yield\<close>.
\<close>

definition generator_step ::
  "string \<Rightarrow> string list \<Rightarrow> string \<Rightarrow> (string \<Rightarrow> string option) \<Rightarrow> gconfig \<Rightarrow>
     (nat \<Rightarrow> sample_draws) \<Rightarrow> error + (tensor \<times> tensor)" where
  "generator_step cs f file_delimiter vocab_trie g rs =
     (let seq2seq = Seq2seq_init cs;
          lines = corpus_lines f file_delimiter (cfg_max_cmd_len g)
      in case sample_loop cs lines vocab_trie g (map rs [0..<cfg_batch_size g]) ([], []) of
           Inl e \<Rightarrow> Inl e
         | Inr (commands, misspelled_commands) \<Rightarrow>
             if length commands \<noteq> length misspelled_commands then Inl AssertionError
             else if length commands \<noteq> cfg_batch_size g then Inl AssertionError
             else (case encode seq2seq misspelled_commands (cfg_max_cmd_len g) of
                     Inl e \<Rightarrow> Inl e
                   | Inr X \<Rightarrow>
                       (case encode seq2seq commands (cfg_max_cmd_len g) of
                          Inl e \<Rightarrow> Inl e
                        | Inr y \<Rightarrow> Inr (X, y))))"

text \<open>
  The generator, pulled once for every element of \<open>passes\<close> (the corpus as read in that
  pass, and its draws): the pairs it yields, up to the first exception, which ends it.
\<close>

fun generator ::
  "string \<Rightarrow> (string list \<times> (nat \<Rightarrow> sample_draws)) list \<Rightarrow> string \<Rightarrow>
     (string \<Rightarrow> string option) \<Rightarrow> gconfig \<Rightarrow> (tensor \<times> tensor) list" where
  "generator cs [] file_delimiter vocab_trie g = []"
| "generator cs ((f, rs) # passes) file_delimiter vocab_trie g =
     (case generator_step cs f file_delimiter vocab_trie g rs of
        Inl e \<Rightarrow> []
      | Inr Xy \<Rightarrow> Xy # generator cs passes file_delimiter vocab_trie g)"

subsection \<open>Auxiliary notions for the proofs\<close>

text \<open>
  What one pass of the inner loop of \<^verbatim>\<open>encode\<close> does to the slot at position \<open>q\<close>
  of its row: the bit of the character at \<open>q\<close> is set when the character is known.
\<close>

definition slot_step :: "seq2seq \<Rightarrow> string \<Rightarrow> nat \<Rightarrow> bool list \<Rightarrow> bool list" where
  "slot_step self cmd q v =
     (if q < length cmd
      then (case char_indices self (cmd ! q) of None \<Rightarrow> v | Some k \<Rightarrow> v[k := True])
      else v)"

text \<open>
  One order in which a set of characters can be listed: from the largest code down.
\<close>

definition descending :: "char set \<Rightarrow> char list" where
  "descending S = rev (sorted_list_of_set S)"

text \<open>
  A stream of draws for the examples: the \<open>k\<close>-th sample takes the \<open>k\<close>-th line and
  draws a deletion at position \<open>0\<close>.
\<close>

definition fixed_draws :: "nat \<Rightarrow> sample_draws" where
  "fixed_draws k =
     \<lparr>line_draw = k,
      mistake_draws = \<lparr>ind_draw = 1, rand_draw = 0, char_pos_draw = 0, choice_draw = 0,
                       transposition_draw = 0\<rparr>\<rparr>"

section \<open>Properties\<close>

subsection \<open>The constructor's dictionaries\<close>

lemma dict_snoc: "dict (kvs @ [kv]) = (dict kvs)(fst kv \<mapsto> snd kv)"
  by (simp add: dict_def)

lemma dict_Nil: "dict [] = Map.empty"
  by (simp add: dict_def)

lemma dict_enumerate:
  "dict (enumerate 0 xs) k = (if k < length xs then Some (xs ! k) else None)"
proof (induction xs rule: rev_induct)
  case Nil
  show ?case by (simp add: dict_Nil)
next
  case (snoc x xs)
  have "enumerate 0 (xs @ [x]) = enumerate 0 xs @ [(length xs, x)]"
    by (simp add: enumerate_append_eq)
  with snoc show ?case
    by (auto simp: dict_snoc nth_append)
qed

lemma dict_enumerate_swap:
  "distinct xs \<Longrightarrow>
   dict (map (\<lambda>ic. (snd ic, fst ic)) (enumerate 0 xs)) c = Some k \<longleftrightarrow> k < length xs \<and> xs ! k = c"
proof (induction xs rule: rev_induct)
  case Nil
  show ?case by (simp add: dict_Nil)
next
  case (snoc x xs)
  have e: "enumerate 0 (xs @ [x]) = enumerate 0 xs @ [(length xs, x)]"
    by (simp add: enumerate_append_eq)
  from snoc.prems have d: "distinct xs" and nx: "x \<notin> set xs" by simp_all
  show ?case
  proof (cases "c = x")
    case True
    have "\<And>k. k < length xs \<Longrightarrow> xs ! k \<noteq> x" using nx by (metis nth_mem)
    with True show ?thesis
      by (auto simp: e dict_snoc nth_append less_Suc_eq)
  next
    case False
    with snoc.IH [OF d] show ?thesis
      by (auto simp: e dict_snoc nth_append less_Suc_eq)
  qed
qed

lemma self_chars_init: "self_chars (Seq2seq_init cs) = sorted_list_of_set (set cs)"
  by (simp add: Seq2seq_init_def Let_def)

lemma char_indices_init:
  "char_indices (Seq2seq_init cs) c = Some k \<longleftrightarrow>
     k < length (self_chars (Seq2seq_init cs)) \<and> self_chars (Seq2seq_init cs) ! k = c"
  by (simp add: Seq2seq_init_def Let_def dict_enumerate_swap)

lemma indices_char_init:
  "indices_char (Seq2seq_init cs) k =
     (if k < length (self_chars (Seq2seq_init cs)) then Some (self_chars (Seq2seq_init cs) ! k) else None)"
  by (simp add: Seq2seq_init_def Let_def dict_enumerate)

lemma char_indices_init_None:
  "char_indices (Seq2seq_init cs) c = None \<longleftrightarrow> c \<notin> set cs"
proof -
  have "set (self_chars (Seq2seq_init cs)) = set cs" by (simp add: self_chars_init)
  then show ?thesis
    using char_indices_init [of cs c]
    by (metis in_set_conv_nth not_Some_eq)
qed

subsection \<open>The loops of encode\<close>

lemma encode_cmd_ok:
  assumes "i < length X" "length (X ! i) = m" "\<forall>q<m. length (X ! i ! q) = a"
    and "\<forall>c k. char_indices self c = Some k \<longrightarrow> k < a"
    and "\<forall>p<length cmd. char_indices self (cmd ! p) \<noteq> None \<longrightarrow> j + p < m"
  shows "\<exists>X'. encode_cmd self i j cmd X = Inr X' \<and> length X' = length X \<and>
           (\<forall>i'. i' \<noteq> i \<longrightarrow> X' ! i' = X ! i') \<and> length (X' ! i) = m \<and>
           (\<forall>q<m. X' ! i ! q =
              (if j \<le> q \<and> q < j + length cmd
               then (case char_indices self (cmd ! (q - j)) of
                       None \<Rightarrow> X ! i ! q
                     | Some k \<Rightarrow> (X ! i ! q)[k := True])
               else X ! i ! q))"
  using assms
proof (induction cmd arbitrary: j X)
  case Nil
  then show ?case by auto
next
  case (Cons c cmd)
  have rest: "\<forall>p<length cmd. char_indices self (cmd ! p) \<noteq> None \<longrightarrow> Suc j + p < m"
  proof (intro allI impI)
    fix p assume "p < length cmd" "char_indices self (cmd ! p) \<noteq> None"
    with Cons.prems(5) [rule_format, of "Suc p"] show "Suc j + p < m" by simp
  qed
  show ?case
  proof (cases "char_indices self c")
    case None
    from Cons.IH [OF Cons.prems(1-4) rest]
    obtain X' where X': "encode_cmd self i (Suc j) cmd X = Inr X'" "length X' = length X"
      "\<forall>i'. i' \<noteq> i \<longrightarrow> X' ! i' = X ! i'" "length (X' ! i) = m"
      "\<forall>q<m. X' ! i ! q =
              (if Suc j \<le> q \<and> q < Suc j + length cmd
               then (case char_indices self (cmd ! (q - Suc j)) of
                       None \<Rightarrow> X ! i ! q
                     | Some k \<Rightarrow> (X ! i ! q)[k := True])
               else X ! i ! q)"
      by blast
    have "\<forall>q<m. X' ! i ! q =
              (if j \<le> q \<and> q < j + length (c # cmd)
               then (case char_indices self ((c # cmd) ! (q - j)) of
                       None \<Rightarrow> X ! i ! q
                     | Some k \<Rightarrow> (X ! i ! q)[k := True])
               else X ! i ! q)"
    proof (intro allI impI)
      fix q assume q: "q < m"
      show "X' ! i ! q =
              (if j \<le> q \<and> q < j + length (c # cmd)
               then (case char_indices self ((c # cmd) ! (q - j)) of
                       None \<Rightarrow> X ! i ! q
                     | Some k \<Rightarrow> (X ! i ! q)[k := True])
               else X ! i ! q)"
      proof (cases "q = j")
        case True
        with X'(5) q None show ?thesis by simp
      next
        case False
        then have "j \<le> q \<longleftrightarrow> Suc j \<le> q" by arith
        moreover have "Suc j \<le> q \<Longrightarrow> (c # cmd) ! (q - j) = cmd ! (q - Suc j)"
          by (simp add: Suc_diff_le)
        ultimately show ?thesis using X'(5) q by auto
      qed
    qed
    with X' None show ?thesis by simp
  next
    case (Some k)
    from Cons.prems(5) [rule_format, of 0] Some have jm: "j < m" by simp
    from Cons.prems(4) Some have ka: "k < a" by blast
    define X1 where "X1 = X[i := (X ! i)[j := (X ! i ! j)[k := True]]]"
    have set1: "setitem X i j k = Inr X1"
      using Cons.prems(1-3) jm ka by (simp add: setitem_def X1_def)
    have p1: "i < length X1" "length (X1 ! i) = m" "\<forall>q<m. length (X1 ! i ! q) = a"
      using Cons.prems(1-3) jm by (auto simp: X1_def nth_list_update)
    from Cons.IH [OF p1 Cons.prems(4) rest]
    obtain X' where X': "encode_cmd self i (Suc j) cmd X1 = Inr X'" "length X' = length X1"
      "\<forall>i'. i' \<noteq> i \<longrightarrow> X' ! i' = X1 ! i'" "length (X' ! i) = m"
      "\<forall>q<m. X' ! i ! q =
              (if Suc j \<le> q \<and> q < Suc j + length cmd
               then (case char_indices self (cmd ! (q - Suc j)) of
                       None \<Rightarrow> X1 ! i ! q
                     | Some k \<Rightarrow> (X1 ! i ! q)[k := True])
               else X1 ! i ! q)"
      by blast
    have other: "\<forall>i'. i' \<noteq> i \<longrightarrow> X' ! i' = X ! i'"
      using X'(3) by (simp add: X1_def)
    have X1q: "\<And>q. q < m \<Longrightarrow> q \<noteq> j \<Longrightarrow> X1 ! i ! q = X ! i ! q"
      using Cons.prems(1,2) by (simp add: X1_def)
    have X1j: "X1 ! i ! j = (X ! i ! j)[k := True]"
      using Cons.prems(1,2) jm by (simp add: X1_def)
    have "\<forall>q<m. X' ! i ! q =
              (if j \<le> q \<and> q < j + length (c # cmd)
               then (case char_indices self ((c # cmd) ! (q - j)) of
                       None \<Rightarrow> X ! i ! q
                     | Some k \<Rightarrow> (X ! i ! q)[k := True])
               else X ! i ! q)"
    proof (intro allI impI)
      fix q assume q: "q < m"
      show "X' ! i ! q =
              (if j \<le> q \<and> q < j + length (c # cmd)
               then (case char_indices self ((c # cmd) ! (q - j)) of
                       None \<Rightarrow> X ! i ! q
                     | Some k \<Rightarrow> (X ! i ! q)[k := True])
               else X ! i ! q)"
      proof (cases "q = j")
        case True
        with X'(5) q Some X1j show ?thesis by simp
      next
        case False
        then have "j \<le> q \<longleftrightarrow> Suc j \<le> q" by arith
        moreover have "Suc j \<le> q \<Longrightarrow> (c # cmd) ! (q - j) = cmd ! (q - Suc j)"
          by (simp add: Suc_diff_le)
        ultimately show ?thesis using X'(5) q X1q [OF q False] by (auto split: option.split)
      qed
    qed
    with X' Some set1 other show ?thesis by (simp add: X1_def)
  qed
qed

lemma setitem_Inr_D:
  "setitem X i j k = Inr X' \<Longrightarrow> j < length (X ! i) \<and> map length X' = map length X"
  by (auto simp: setitem_def list_eq_iff_nth_eq nth_list_update split: if_splits)

lemma setitem_Inl_D: "setitem X i j k = Inl e \<Longrightarrow> e = IndexError"
  by (auto simp: setitem_def split: if_splits)

lemma encode_cmd_Inl_D: "encode_cmd self i j cmd X = Inl e \<Longrightarrow> e = IndexError"
  by (induction self i j cmd X rule: encode_cmd.induct)
     (auto split: option.splits sum.splits dest: setitem_Inl_D)

lemma encode_cmds_Inl_D: "encode_cmds self i commands X = Inl e \<Longrightarrow> e = IndexError"
  by (induction self i commands X rule: encode_cmds.induct)
     (auto split: sum.splits dest: encode_cmd_Inl_D)

lemma encode_cmd_Inr_D:
  "encode_cmd self i j cmd X = Inr X' \<Longrightarrow>
     map length X' = map length X \<and>
     (\<forall>p<length cmd. char_indices self (cmd ! p) \<noteq> None \<longrightarrow> j + p < length (X ! i))"
proof (induction cmd arbitrary: j X)
  case Nil
  then show ?case by simp
next
  case (Cons c cmd)
  show ?case
  proof (cases "char_indices self c")
    case None
    with Cons.prems have "encode_cmd self i (Suc j) cmd X = Inr X'" by simp
    from Cons.IH [OF this] None show ?thesis
      by (auto simp: nth_Cons split: nat.splits)
  next
    case (Some k)
    with Cons.prems obtain X1 where s: "setitem X i j k = Inr X1"
      and r: "encode_cmd self i (Suc j) cmd X1 = Inr X'"
      by (auto split: sum.splits)
    from setitem_Inr_D [OF s] have j: "j < length (X ! i)" and l: "map length X1 = map length X"
      by simp_all
    have li: "length (X1 ! i) = length (X ! i)"
      using s by (auto simp: setitem_def split: if_splits)
    from Cons.IH [OF r] l li j show ?thesis
      by (auto simp: nth_Cons split: nat.splits)
  qed
qed

lemma map_length_nth:
  "map length X' = map length X \<Longrightarrow> n < length X \<Longrightarrow> length (X' ! n) = length (X ! n)"
  by (metis length_map nth_map)

lemma encode_cmds_Inr_D:
  "encode_cmds self i commands X = Inr X' \<Longrightarrow> i + length commands \<le> length X \<Longrightarrow>
     map length X' = map length X \<and>
     (\<forall>n<length commands. \<forall>p<length (commands ! n).
         char_indices self (commands ! n ! p) \<noteq> None \<longrightarrow> p < length (X ! (i + n)))"
proof (induction commands arbitrary: i X)
  case Nil
  then show ?case by simp
next
  case (Cons cmd commands)
  from Cons.prems(1) obtain X1 where c: "encode_cmd self i 0 cmd X = Inr X1"
    and r: "encode_cmds self (Suc i) commands X1 = Inr X'"
    by (auto split: sum.splits)
  from encode_cmd_Inr_D [OF c] have l: "map length X1 = map length X"
    and h: "\<forall>p<length cmd. char_indices self (cmd ! p) \<noteq> None \<longrightarrow> p < length (X ! i)"
    by simp_all
  have len: "length X1 = length X" using l by (metis length_map)
  with Cons.prems(2) have "Suc i + length commands \<le> length X1" by simp
  from Cons.IH [OF r this] have l': "map length X' = map length X1"
    and t: "\<forall>n<length commands. \<forall>p<length (commands ! n).
         char_indices self (commands ! n ! p) \<noteq> None \<longrightarrow> p < length (X1 ! (Suc i + n))"
    by simp_all
  have "\<forall>n<length (cmd # commands). \<forall>p<length ((cmd # commands) ! n).
         char_indices self ((cmd # commands) ! n ! p) \<noteq> None \<longrightarrow> p < length (X ! (i + n))"
  proof (intro allI impI)
    fix n p
    assume n: "n < length (cmd # commands)" and p: "p < length ((cmd # commands) ! n)"
      and k: "char_indices self ((cmd # commands) ! n ! p) \<noteq> None"
    show "p < length (X ! (i + n))"
    proof (cases n)
      case 0
      with h p k show ?thesis by simp
    next
      case (Suc n')
      with n p k t have "p < length (X1 ! (Suc i + n'))" by simp
      moreover have "length (X1 ! (Suc i + n')) = length (X ! (Suc i + n'))"
        using map_length_nth [OF l] Cons.prems(2) n Suc by simp
      ultimately show ?thesis using Suc by simp
    qed
  qed
  with l l' show ?case by simp
qed

lemma encode_Inr_D:
  assumes "encode self commands max_cmd_len = Inr X"
    and "cmd \<in> set commands" "j < length cmd" "char_indices self (cmd ! j) \<noteq> None"
  shows "j < max_cmd_len"
proof -
  from assms(2) obtain n where n: "n < length commands" "commands ! n = cmd"
    by (auto simp: in_set_conv_nth)
  have "0 + length commands \<le> length (zeros (length commands) max_cmd_len (length (self_chars self)))"
    by (simp add: zeros_def)
  from encode_cmds_Inr_D [OF assms(1) [unfolded encode_def] this] n assms(3,4)
  have "j < length (zeros (length commands) max_cmd_len (length (self_chars self)) ! n)"
    by auto
  with n(1) show ?thesis by (simp add: zeros_def)
qed

lemma encode_Inl_D: "encode self commands max_cmd_len = Inl e \<Longrightarrow> e = IndexError"
  unfolding encode_def by (rule encode_cmds_Inl_D)

lemma encode_raises:
  assumes "cmd \<in> set commands" "j < length cmd" "max_cmd_len \<le> j"
    "char_indices self (cmd ! j) \<noteq> None"
  shows "encode self commands max_cmd_len = Inl IndexError"
proof (cases "encode self commands max_cmd_len")
  case (Inl e)
  then show ?thesis using encode_Inl_D by blast
next
  case (Inr X)
  from encode_Inr_D [OF Inr assms(1,2,4)] assms(3) show ?thesis by simp
qed

lemma has_shape_nth:
  "has_shape X (b, m, a) \<longleftrightarrow>
     length X = b \<and> (\<forall>i<b. length (X ! i) = m \<and> (\<forall>q<m. length (X ! i ! q) = a))"
  by (auto simp: has_shape_def list_all_length)

lemma has_shape_zeros: "has_shape (zeros b m a) (b, m, a)"
  by (simp add: has_shape_nth zeros_def)


lemma length_slot_step: "length (slot_step self cmd q v) = length v"
  by (simp add: slot_step_def split: option.split)

lemma encode_cmd_row:
  assumes "has_shape X (b, m, a)" "i < b"
    and "\<forall>c k. char_indices self c = Some k \<longrightarrow> k < a"
    and "\<forall>p<length cmd. char_indices self (cmd ! p) \<noteq> None \<longrightarrow> p < m"
  shows "\<exists>X'. encode_cmd self i 0 cmd X = Inr X' \<and> has_shape X' (b, m, a) \<and>
           (\<forall>i'. i' \<noteq> i \<longrightarrow> X' ! i' = X ! i') \<and>
           (\<forall>q<m. X' ! i ! q = slot_step self cmd q (X ! i ! q))"
proof -
  from assms(1,2) have s: "i < length X" "length (X ! i) = m" "\<forall>q<m. length (X ! i ! q) = a"
    by (simp_all add: has_shape_nth)
  from assms(4) have r: "\<forall>p<length cmd. char_indices self (cmd ! p) \<noteq> None \<longrightarrow> 0 + p < m"
    by simp
  from encode_cmd_ok [OF s assms(3) r]
  obtain X' where X': "encode_cmd self i 0 cmd X = Inr X'" "length X' = length X"
    "\<forall>i'. i' \<noteq> i \<longrightarrow> X' ! i' = X ! i'" "length (X' ! i) = m"
    "\<forall>q<m. X' ! i ! q =
              (if 0 \<le> q \<and> q < 0 + length cmd
               then (case char_indices self (cmd ! (q - 0)) of
                       None \<Rightarrow> X ! i ! q
                     | Some k \<Rightarrow> (X ! i ! q)[k := True])
               else X ! i ! q)"
    by blast
  from X'(5) have q: "\<forall>q<m. X' ! i ! q = slot_step self cmd q (X ! i ! q)"
    by (simp add: slot_step_def)
  have "has_shape X' (b, m, a)"
    unfolding has_shape_nth
  proof (intro conjI allI impI)
    show "length X' = b" using X'(2) assms(1) by (simp add: has_shape_nth)
  next
    fix i' assume "i' < b"
    then show "length (X' ! i') = m"
      using X'(3,4) assms(1) by (cases "i' = i") (simp_all add: has_shape_nth)
  next
    fix i' q assume "i' < b" "q < m"
    then show "length (X' ! i' ! q) = a"
      using X'(3) q s(3) assms(1)
      by (cases "i' = i") (simp_all add: has_shape_nth length_slot_step)
  qed
  with X'(1,3) q show ?thesis by blast
qed

lemma encode_cmds_rows:
  assumes "has_shape X (b, m, a)" "i + length commands \<le> b"
    and "\<forall>c k. char_indices self c = Some k \<longrightarrow> k < a"
    and "\<forall>cmd\<in>set commands. \<forall>p<length cmd. char_indices self (cmd ! p) \<noteq> None \<longrightarrow> p < m"
  shows "\<exists>X'. encode_cmds self i commands X = Inr X' \<and> has_shape X' (b, m, a) \<and>
           (\<forall>i'. \<not> (i \<le> i' \<and> i' < i + length commands) \<longrightarrow> X' ! i' = X ! i') \<and>
           (\<forall>n<length commands. \<forall>q<m.
               X' ! (i + n) ! q = slot_step self (commands ! n) q (X ! (i + n) ! q))"
  using assms(1,2,4)
proof (induction commands arbitrary: i X)
  case Nil
  then show ?case by simp
next
  case (Cons cmd commands)
  from Cons.prems(2) have ib: "i < b" by simp
  from Cons.prems(3) have c: "\<forall>p<length cmd. char_indices self (cmd ! p) \<noteq> None \<longrightarrow> p < m"
    by simp
  from encode_cmd_row [OF Cons.prems(1) ib assms(3) c]
  obtain X1 where X1: "encode_cmd self i 0 cmd X = Inr X1" "has_shape X1 (b, m, a)"
    "\<forall>i'. i' \<noteq> i \<longrightarrow> X1 ! i' = X ! i'"
    "\<forall>q<m. X1 ! i ! q = slot_step self cmd q (X ! i ! q)"
    by blast
  from Cons.prems(2) have l: "Suc i + length commands \<le> b" by simp
  from Cons.prems(3) have r: "\<forall>cmd\<in>set commands. \<forall>p<length cmd.
      char_indices self (cmd ! p) \<noteq> None \<longrightarrow> p < m" by simp
  from Cons.IH [OF X1(2) l r]
  obtain X' where X': "encode_cmds self (Suc i) commands X1 = Inr X'" "has_shape X' (b, m, a)"
    "\<forall>i'. \<not> (Suc i \<le> i' \<and> i' < Suc i + length commands) \<longrightarrow> X' ! i' = X1 ! i'"
    "\<forall>n<length commands. \<forall>q<m.
        X' ! (Suc i + n) ! q = slot_step self (commands ! n) q (X1 ! (Suc i + n) ! q)"
    by blast
  have a1: "\<forall>i'. \<not> (i \<le> i' \<and> i' < i + length (cmd # commands)) \<longrightarrow> X' ! i' = X ! i'"
    using X'(3) X1(3) by auto
  have a2: "\<forall>n<length (cmd # commands). \<forall>q<m.
      X' ! (i + n) ! q = slot_step self ((cmd # commands) ! n) q (X ! (i + n) ! q)"
  proof (intro allI impI)
    fix n q assume n: "n < length (cmd # commands)" and q: "q < m"
    show "X' ! (i + n) ! q = slot_step self ((cmd # commands) ! n) q (X ! (i + n) ! q)"
    proof (cases n)
      case 0
      have "X' ! i = X1 ! i" using X'(3) by simp
      with 0 X1(4) q show ?thesis by simp
    next
      case (Suc n')
      with n have "n' < length commands" by simp
      with X'(4) q have "X' ! (Suc i + n') ! q =
          slot_step self (commands ! n') q (X1 ! (Suc i + n') ! q)" by blast
      moreover have "X1 ! (Suc i + n') = X ! (Suc i + n')" using X1(3) by simp
      ultimately show ?thesis using Suc by simp
    qed
  qed
  from X1(1) X'(1,2) a1 a2 show ?case by simp
qed

lemma replicate_update_nth:
  "k < a \<Longrightarrow> (replicate a False)[x := True] ! k = (x = k)"
  by (cases "x < a") (auto simp: nth_list_update)

lemma slot_step_zeros:
  "k < a \<Longrightarrow> slot_step self cmd q (replicate a False) ! k =
     (q < length cmd \<and> char_indices self (cmd ! q) = Some k)"
  by (auto simp: slot_step_def replicate_update_nth split: option.split)

lemma encode_returns:
  assumes "\<forall>c k. char_indices self c = Some k \<longrightarrow> k < length (self_chars self)"
    and "\<forall>cmd\<in>set commands. \<forall>j<length cmd.
           char_indices self (cmd ! j) \<noteq> None \<longrightarrow> j < max_cmd_len"
  shows "\<exists>X. encode self commands max_cmd_len = Inr X \<and>
           has_shape X (length commands, max_cmd_len, length (self_chars self)) \<and>
           (\<forall>i<length commands. \<forall>j<max_cmd_len. \<forall>k<length (self_chars self).
              X ! i ! j ! k =
                (j < length (commands ! i) \<and> char_indices self (commands ! i ! j) = Some k))"
proof -
  let ?a = "length (self_chars self)"
  let ?Z = "zeros (length commands) max_cmd_len ?a"
  have l: "0 + length commands \<le> length commands" by simp
  from encode_cmds_rows [OF has_shape_zeros l assms]
  obtain X where X: "encode_cmds self 0 commands ?Z = Inr X"
    "has_shape X (length commands, max_cmd_len, ?a)"
    "\<forall>n<length commands. \<forall>q<max_cmd_len.
        X ! (0 + n) ! q = slot_step self (commands ! n) q (?Z ! (0 + n) ! q)"
    by blast
  have "\<forall>i<length commands. \<forall>j<max_cmd_len. \<forall>k<?a.
      X ! i ! j ! k = (j < length (commands ! i) \<and> char_indices self (commands ! i ! j) = Some k)"
  proof (intro allI impI)
    fix i j k assume i: "i < length commands" and j: "j < max_cmd_len" and k: "k < ?a"
    from X(3) i j have "X ! i ! j = slot_step self (commands ! i) j (?Z ! i ! j)" by simp
    also have "?Z ! i ! j = replicate ?a False" using i j by (simp add: zeros_def)
    finally show "X ! i ! j ! k =
        (j < length (commands ! i) \<and> char_indices self (commands ! i ! j) = Some k)"
      using k by (simp add: slot_step_zeros)
  qed
  with X(1,2) show ?thesis by (simp add: encode_def)
qed

lemma distinct_self_chars: "distinct (self_chars (Seq2seq_init cs))"
  by (simp add: self_chars_init)

lemma set_self_chars: "set (self_chars (Seq2seq_init cs)) = set cs"
  by (simp add: self_chars_init)

lemma char_indices_init_bound:
  "\<forall>c k. char_indices (Seq2seq_init cs) c = Some k \<longrightarrow> k < length (self_chars (Seq2seq_init cs))"
  by (simp add: char_indices_init)

subsection \<open>Claims about encode\<close>

text \<open>
  Claim C10. The lenient policy of \<^verbatim>\<open>encode\<close> covers unknown characters only: when a
  string of the batch holds a character of the inventory at a position \<open>j\<close> with
  \<open>max_cmd_len \<le> j\<close>, \<^verbatim>\<open>encode\<close> does not return a tensor; the write at that position
  raises IndexError, which the \<^verbatim>\<open>except KeyError\<close> does not catch.
\<close>

theorem encode_overlength_raises:
  assumes "cmd \<in> set commands" "j < length cmd" "max_cmd_len \<le> j" "cmd ! j \<in> set cs"
  shows "encode (Seq2seq_init cs) commands max_cmd_len = Inl IndexError"
proof -
  from assms(4) have "char_indices (Seq2seq_init cs) (cmd ! j) \<noteq> None"
    by (simp add: char_indices_init_None)
  with assms(1-3) show ?thesis by (rule encode_raises)
qed

theorem encode_overlength_raises_witness:
  "''ab$a'' \<in> set [''ab$a''] \<and> 3 < length ''ab$a'' \<and> (3::nat) \<le> 3 \<and> ''ab$a'' ! 3 \<in> set ''ab'' \<and>
   encode (Seq2seq_init ''ab'') [''ab$a''] 3 = Inl IndexError"
  using encode_overlength_raises [of "''ab$a''" "[''ab$a'']" 3 3 "''ab''"] by simp

text \<open>
  Claim C2. \<^verbatim>\<open>encode\<close> never raises on a character absent from the inventory: for
  every batch and every \<open>max_cmd_len\<close> such that the positions from \<open>max_cmd_len\<close> on hold
  unknown characters only (the one other case is the IndexError of claim C10),
  \<^verbatim>\<open>encode\<close> returns a tensor of shape
  \<open>(len(commands), max_cmd_len, len(self.chars))\<close> in which the bit \<open>k\<close> of the slot
  \<open>(i, j)\<close> is set exactly when \<open>j\<close> is a position of the \<open>i\<close>-th string and its
  character there is the \<open>k\<close>-th of the inventory. So the slot of an unknown character and
  the slots beyond the end of a string are all zero, and the slot of a known character has
  exactly the bit of its index set.
\<close>

theorem encode_lenient:
  assumes "\<forall>cmd\<in>set commands. \<forall>j<length cmd. cmd ! j \<in> set cs \<longrightarrow> j < max_cmd_len"
  shows "\<exists>X. encode (Seq2seq_init cs) commands max_cmd_len = Inr X \<and>
           has_shape X (length commands, max_cmd_len, length (self_chars (Seq2seq_init cs))) \<and>
           (\<forall>i<length commands. \<forall>j<max_cmd_len. \<forall>k<length (self_chars (Seq2seq_init cs)).
              X ! i ! j ! k =
                (j < length (commands ! i) \<and> commands ! i ! j = self_chars (Seq2seq_init cs) ! k))"
proof -
  let ?self = "Seq2seq_init cs"
  from assms have r: "\<forall>cmd\<in>set commands. \<forall>j<length cmd.
      char_indices ?self (cmd ! j) \<noteq> None \<longrightarrow> j < max_cmd_len"
    by (simp add: char_indices_init_None)
  from encode_returns [OF char_indices_init_bound r]
  obtain X where X: "encode ?self commands max_cmd_len = Inr X"
    "has_shape X (length commands, max_cmd_len, length (self_chars ?self))"
    "\<forall>i<length commands. \<forall>j<max_cmd_len. \<forall>k<length (self_chars ?self).
       X ! i ! j ! k =
         (j < length (commands ! i) \<and> char_indices ?self (commands ! i ! j) = Some k)"
    by blast
  from X(3) have "\<forall>i<length commands. \<forall>j<max_cmd_len. \<forall>k<length (self_chars ?self).
       X ! i ! j ! k = (j < length (commands ! i) \<and> commands ! i ! j = self_chars ?self ! k)"
    by (auto simp: char_indices_init)
  with X(1,2) show ?thesis by blast
qed

theorem encode_lenient_witness:
  "\<exists>X. encode (Seq2seq_init ''a'') [''a$''] 1 = Inr X \<and> has_shape X (1, 1, 1) \<and> X ! 0 ! 0 ! 0"
proof -
  have h: "\<forall>cmd\<in>set [''a$'']. \<forall>j<length cmd. cmd ! j \<in> set ''a'' \<longrightarrow> j < 1"
    by (simp add: nth_Cons split: nat.split)
  have s: "self_chars (Seq2seq_init ''a'') = ''a''"
    by (simp add: self_chars_init)
  from encode_lenient [OF h] show ?thesis
    unfolding s by auto
qed

subsection \<open>Claims about the constructor and decode\<close>

text \<open>
  Claim C9. \<^verbatim>\<open>encode\<close> and \<^verbatim>\<open>decode\<close> do not depend on the order or the
  repetitions of the list given to the constructor: two lists with the same set of
  characters build the same codec (\<^verbatim>\<open>sorted(set(chars))\<close> and the two dictionaries
  made from it), hence the same encodings and decodings of every input.
\<close>

theorem codec_invariant:
  assumes "set cs1 = set cs2"
  shows "Seq2seq_init cs1 = Seq2seq_init cs2 \<and>
         encode (Seq2seq_init cs1) commands max_cmd_len =
           encode (Seq2seq_init cs2) commands max_cmd_len \<and>
         decode (Seq2seq_init cs1) X max_cmd_len inverted =
           decode (Seq2seq_init cs2) X max_cmd_len inverted"
proof -
  from assms have "Seq2seq_init cs1 = Seq2seq_init cs2"
    by (simp add: Seq2seq_init_def)
  then show ?thesis by simp
qed

theorem codec_invariant_witness:
  "Seq2seq_init ''ab'' = Seq2seq_init ''bba'' \<and>
   encode (Seq2seq_init ''ab'') [''ba''] 2 = encode (Seq2seq_init ''bba'') [''ba''] 2 \<and>
   decode (Seq2seq_init ''ab'') (Matrix [[False, True], [True, False]]) 2 False =
     decode (Seq2seq_init ''bba'') (Matrix [[False, True], [True, False]]) 2 False"
proof -
  have h: "set ''ab'' = set ''bba''" by auto
  show ?thesis by (rule codec_invariant [OF h])
qed

lemma argmax_Inl_D: "argmax v = Inl e \<Longrightarrow> e = ValueError"
  by (auto simp: argmax_def split: if_splits)

lemma argmax_all_False:
  "\<forall>b\<in>set v. \<not> b \<Longrightarrow> argmax v = Inl ValueError \<or> argmax v = Inr 0"
  by (auto simp: argmax_def)

lemma argmax_rows_all_False:
  "\<forall>v\<in>set X. \<forall>b\<in>set v. \<not> b \<Longrightarrow>
     argmax_rows X = Inl ValueError \<or> argmax_rows X = Inr (replicate (length X) 0)"
proof (induction X)
  case Nil
  show ?case by simp
next
  case (Cons v X)
  from Cons.prems have "\<forall>b\<in>set v. \<not> b" by auto
  then have "argmax v = Inl ValueError \<or> argmax v = Inr 0"
    by (rule argmax_all_False)
  moreover from Cons.prems have "\<forall>v\<in>set X. \<forall>b\<in>set v. \<not> b" by auto
  then have
    "argmax_rows X = Inl ValueError \<or> argmax_rows X = Inr (replicate (length X) 0)"
    by (rule Cons.IH)
  ultimately show ?case by auto
qed

lemma nonzero_replicate_0: "nonzero (replicate n 0) = []"
  by (simp add: nonzero_def filter_empty_conv)

lemma decode_all_zero:
  assumes "\<forall>v\<in>set X. \<forall>b\<in>set v. \<not> b"
  shows "decode self (Matrix X) max_cmd_len inverted = Inl ValueError"
  using argmax_rows_all_False [OF assms]
  by (auto simp: nonzero_replicate_0 amax_def amin_def)

text \<open>
  Claim C3 asks that \<^verbatim>\<open>decode\<close> with \<^verbatim>\<open>reduction=True\<close> returns the empty string on an
  all-zero row. The code raises instead: every slot has \<^verbatim>\<open>argmax\<close> \<open>0\<close>, so
  \<^verbatim>\<open>np.nonzero\<close> finds no position and \<^verbatim>\<open>np.amax\<close> (or \<^verbatim>\<open>np.amin\<close>) of nothing
  raises ValueError (lemma \<open>decode_all_zero\<close>, for every all-zero row). The branch for
  \<^verbatim>\<open>reduction=False\<close> guards the same lookup with \<^verbatim>\<open>len(np.nonzero(X)[0]) != 0\<close>
  and returns the empty string. Here the code is run on an all-zero row with
  \<open>max_cmd_len = 3\<close> and an inventory of two characters.
\<close>

theorem decode_all_zero_row_raises:
  "decode (Seq2seq_init ''ab'') (Matrix [[False, False], [False, False], [False, False]]) 3 False
     = Inl ValueError \<and>
   decode (Seq2seq_init ''ab'') (Matrix [[False, False], [False, False], [False, False]]) 3 True
     = Inl ValueError"
  by (simp add: argmax_def nonzero_def amax_def amin_def)

subsection \<open>Claims about the mistake injector\<close>

text \<open>
  Claim C4 asks that \<^verbatim>\<open>create_mistakes\<close> raises no error for any outcome of its draws.
  The code raises ValueError in three cases, each run here with \<open>level_of_noise = 1\<close>: a
  transposition of a command of length 1 (\<^verbatim>\<open>randint(len(command) - 1)\<close> is
  \<^verbatim>\<open>randint(0)\<close>), an empty prefix (\<^verbatim>\<open>randint(len(prefix))\<close> is \<^verbatim>\<open>randint(0)\<close>; the
  code guards \<^verbatim>\<open>prefix is not None\<close> only), and a swap with an empty inventory
  (\<^verbatim>\<open>choice([])\<close>).
\<close>

theorem create_mistakes_raises:
  "create_mistakes ''ab'' ''a'' (\<lambda>command. Some ''a'') 1
     \<lparr>ind_draw = 3, rand_draw = 0, char_pos_draw = 0, choice_draw = 0, transposition_draw = 0\<rparr>
     = Inl ValueError \<and>
   create_mistakes [] ''ls'' (\<lambda>command. Some ''ls'') 1
     \<lparr>ind_draw = 0, rand_draw = 0, char_pos_draw = 0, choice_draw = 0, transposition_draw = 0\<rparr>
     = Inl ValueError \<and>
   create_mistakes ''ab'' ''ls'' (\<lambda>command. Some []) 1
     \<lparr>ind_draw = 1, rand_draw = 0, char_pos_draw = 0, choice_draw = 0, transposition_draw = 0\<rparr>
     = Inl ValueError"
  by (simp add: create_mistakes_def randint_def choice_def mistakes_def)

subsection \<open>Claims about the corpus filter\<close>

lemma length_dropWhile_eq: "length (dropWhile P xs) = length xs \<Longrightarrow> dropWhile P xs = xs"
proof (cases xs)
  case Nil
  then show ?thesis by simp
next
  case (Cons x xs')
  assume l: "length (dropWhile P xs) = length xs"
  show ?thesis
  proof (cases "P x")
    case True
    have "length (dropWhile P xs') \<le> length xs'" by (rule length_dropWhile_le)
    with True Cons l show ?thesis by simp
  next
    case False
    with Cons show ?thesis by simp
  qed
qed

lemma length_rstrip_le: "length (rstrip s) \<le> length s"
  using length_dropWhile_le [of isspace "rev s"] by (simp add: rstrip_def)

lemma length_strip_le: "length (strip s) \<le> length s"
  using length_dropWhile_le [of isspace "rstrip s"] length_rstrip_le [of s]
  by (simp add: strip_def)

lemma length_strip_eq: "length (strip s) = length s \<Longrightarrow> strip s = s"
proof -
  assume l: "length (strip s) = length s"
  have a: "length (strip s) \<le> length (rstrip s)"
    unfolding strip_def by (rule length_dropWhile_le)
  with l length_rstrip_le [of s] have r: "length (rstrip s) = length s" by simp
  then have "length (dropWhile isspace (rev s)) = length (rev s)" by (simp add: rstrip_def)
  then have "dropWhile isspace (rev s) = rev s" by (rule length_dropWhile_eq)
  then have rs: "rstrip s = s" by (simp add: rstrip_def)
  from l rs have "length (dropWhile isspace s) = length s" by (simp add: strip_def)
  then have "dropWhile isspace s = s" by (rule length_dropWhile_eq)
  with rs show ?thesis by (simp add: strip_def)
qed

text \<open>
  Claim C7, as stated, fails: the filter tests the line as \<^verbatim>\<open>readlines\<close> returns it,
  terminator included, and strips it afterwards. A line that holds a command of length
  exactly \<open>max_cmd_len\<close> followed by its newline differs from the delimiter, its command
  is not longer than \<open>max_cmd_len\<close>, and yet it is not kept.
\<close>

theorem corpus_lines_drops_full_length_command:
  "''abc\<newline>'' \<noteq> ''#\<newline>'' \<and> length (strip ''abc\<newline>'') = 3 \<and>
   corpus_lines [''abc\<newline>''] ''#\<newline>'' 3 = []"
  by (simp add: corpus_lines_def strip_def rstrip_def isspace_def)

text \<open>
  Claim C7, amended. The corpus filter keeps exactly the lines that differ from the
  delimiter and whose length as read (line terminator and surrounding whitespace included)
  does not exceed \<open>max_cmd_len\<close>, and yields each kept line stripped, never truncated. So
  every command eligible for sampling has length at most \<open>max_cmd_len\<close>, and a command of
  length exactly \<open>max_cmd_len\<close> is eligible only when its line is the bare command, with no
  terminator or whitespace around it.
\<close>

theorem corpus_lines_raw_length:
  "corpus_lines f file_delimiter max_cmd_len =
     map strip (filter (\<lambda>cmd. cmd \<noteq> file_delimiter \<and> length cmd \<le> max_cmd_len) f) \<and>
   (\<forall>command\<in>set (corpus_lines f file_delimiter max_cmd_len).
      length command \<le> max_cmd_len) \<and>
   (\<forall>cmd\<in>set f. cmd \<noteq> file_delimiter \<and> length cmd \<le> max_cmd_len \<and>
      length (strip cmd) = max_cmd_len \<longrightarrow> strip cmd = cmd)"
proof (intro conjI ballI impI)
  show "corpus_lines f file_delimiter max_cmd_len =
     map strip (filter (\<lambda>cmd. cmd \<noteq> file_delimiter \<and> length cmd \<le> max_cmd_len) f)"
    by (simp add: corpus_lines_def)
next
  fix command assume "command \<in> set (corpus_lines f file_delimiter max_cmd_len)"
  then obtain cmd where "command = strip cmd" "length cmd \<le> max_cmd_len"
    by (auto simp: corpus_lines_def)
  with length_strip_le [of cmd] show "length command \<le> max_cmd_len" by simp
next
  fix cmd
  assume "cmd \<noteq> file_delimiter \<and> length cmd \<le> max_cmd_len \<and> length (strip cmd) = max_cmd_len"
  with length_strip_le [of cmd] have "length (strip cmd) = length cmd" by simp
  then show "strip cmd = cmd" by (rule length_strip_eq)
qed

theorem corpus_lines_raw_length_witness:
  "corpus_lines [''ab\<newline>'', ''abc\<newline>'', ''#\<newline>'', ''abc''] ''#\<newline>'' 3 = [''ab'', ''abc'']"
  using corpus_lines_raw_length
    [of "[''ab\<newline>'', ''abc\<newline>'', ''#\<newline>'', ''abc'']" "''#\<newline>''" 3]
  by (simp add: strip_def rstrip_def isspace_def)

subsection \<open>Claims about the character inventory\<close>

lemma fold_union_lines:
  "fold (\<lambda>line cs. cs \<union> set (rstrip line)) f A = A \<union> (\<Union>line\<in>set f. set (rstrip line))"
  by (induction f arbitrary: A) auto

lemma iteration_order_descending: "iteration_order descending"
  by (simp add: iteration_order_def descending_def)

text \<open>
  Claim C5, as stated, fails: \<^verbatim>\<open>get_chars\<close> returns \<^verbatim>\<open>list(chars)\<close> of a set and does
  not sort it. With a set that lists its elements from the largest down, the vocabulary
  line \<open>ab\<close> gives the list \<open>ba\<close>, which is not sorted.
\<close>

theorem get_chars_unsorted:
  "iteration_order descending \<and> get_chars descending [''ab\<newline>''] = ''ba'' \<and>
   \<not> sorted (get_chars descending [''ab\<newline>''])"
proof -
  have s: "sorted_list_of_set (set ''ab'') = ''ab''"
    by (simp add: sorted_list_of_set_sort_remdups less_eq_char_def)
  have r: "rstrip ''ab\<newline>'' = ''ab''" by (simp add: rstrip_def isspace_def)
  have g: "get_chars descending [''ab\<newline>''] = ''ba''"
    using s by (simp add: get_chars_def r descending_def)
  show ?thesis unfolding g using iteration_order_descending
    by (simp add: less_eq_char_def)
qed

text \<open>
  Claim C5, amended. For every vocabulary source and every order in which the set is
  listed, \<^verbatim>\<open>get_chars\<close> returns a list without repetitions of exactly the characters
  that appear in some line with its trailing whitespace stripped; the order of the list is
  that of the set's iteration. The sorted inventory is the one the \<^verbatim>\<open>Seq2seq\<close>
  constructor builds from this list.
\<close>

theorem get_chars_distinct:
  assumes "iteration_order list_of"
  shows "distinct (get_chars list_of f) \<and>
         set (get_chars list_of f) = (\<Union>line\<in>set f. set (rstrip line)) \<and>
         self_chars (Seq2seq_init (get_chars list_of f)) =
           sorted_list_of_set (\<Union>line\<in>set f. set (rstrip line))"
proof -
  let ?S = "\<Union>line\<in>set f. set (rstrip line)"
  have g: "get_chars list_of f = list_of ?S"
    by (simp add: get_chars_def fold_union_lines)
  have "finite ?S" by simp
  with assms have "set (list_of ?S) = ?S" "distinct (list_of ?S)"
    unfolding iteration_order_def by blast+
  then show ?thesis unfolding g by (simp add: Seq2seq_init_def Let_def)
qed

theorem get_chars_distinct_witness:
  "distinct (get_chars descending [''ab \<newline>'', ''cb'']) \<and>
   set (get_chars descending [''ab \<newline>'', ''cb'']) = set ''abc''"
  using get_chars_distinct [OF iteration_order_descending, of "[''ab \<newline>'', ''cb'']"]
  by (auto simp: rstrip_def isspace_def)

subsection \<open>Claims about the positions of the mistakes\<close>

lemma transpose_neighbours:
  assumes "Suc q < length xs"
  shows "take q xs @ [xs ! Suc q] @ [xs ! q] @ drop (q + 2) xs = xs[q := xs ! Suc q, Suc q := xs ! q]"
proof -
  define ys where "ys = take q xs @ xs ! q # xs ! Suc q # drop (Suc (Suc q)) xs"
  have e: "xs = ys"
    unfolding ys_def using assms by (metis Cons_nth_drop_Suc Suc_lessD id_take_nth_drop)
  have l: "length (take q xs) = q" using assms by simp
  have "xs[q := xs ! Suc q, Suc q := xs ! q] = ys[q := xs ! Suc q, Suc q := xs ! q]"
    using e by (rule arg_cong)
  also have "\<dots> = take q xs @ xs ! Suc q # xs ! q # drop (Suc (Suc q)) xs"
    unfolding ys_def using l by (simp add: list_update_append)
  finally show ?thesis by simp
qed

text \<open>
  Claim C6. When a mistake is applied (a prefix was found and \<^verbatim>\<open>rand()\<close> is below the
  noise level), the position \<open>p\<close> of a swap, a deletion or an addition is the outcome of
  \<^verbatim>\<open>randint(len(prefix))\<close>: it lies in \<open>[0, len(prefix))\<close> and every value of that range
  is the outcome of a draw. For a transposition the position is drawn again, by
  \<^verbatim>\<open>randint(len(command) - 1)\<close>: \<open>q\<close> lies in \<open>[0, len(command) - 1)\<close>, every value of
  that range is the outcome of a draw, and the characters at \<open>q\<close> and \<open>q + 1\<close> change
  places. The sampler \<^verbatim>\<open>randint\<close> of numpy is uniform on its range; what the code fixes,
  and what is proved, is the range. The cases in which numpy raises (claim C4) are left
  out by the conditions on the prefix, the inventory and the length of the command.
\<close>

theorem create_mistakes_positions:
  assumes "vocab_trie command = Some pre" and "pre \<noteq> []"
    and "rand_draw rs < level_of_noise"
    and "kind = mistakes ! (ind_draw rs mod 4)"
    and "p = char_pos_draw rs mod length pre"
    and "q = transposition_draw rs mod (length command - 1)"
    and "c = cs ! (choice_draw rs mod length cs)"
  shows "p < length pre \<and> (char_pos_draw rs < length pre \<longrightarrow> p = char_pos_draw rs) \<and>
    (kind = Swap \<and> cs \<noteq> [] \<longrightarrow>
       create_mistakes cs command vocab_trie level_of_noise rs =
         Inr (take p command @ [c] @ drop (p + 1) command)) \<and>
    (kind = Delition \<longrightarrow>
       create_mistakes cs command vocab_trie level_of_noise rs =
         Inr (take p command @ drop (p + 1) command)) \<and>
    (kind = Addition \<and> cs \<noteq> [] \<longrightarrow>
       create_mistakes cs command vocab_trie level_of_noise rs =
         Inr (take p command @ [c] @ drop p command)) \<and>
    (kind = Transposition \<and> 2 \<le> length command \<longrightarrow>
       q < length command - 1 \<and>
       (transposition_draw rs < length command - 1 \<longrightarrow> q = transposition_draw rs) \<and>
       create_mistakes cs command vocab_trie level_of_noise rs =
         Inr (command[q := command ! (q + 1), q + 1 := command ! q]))"
proof (intro conjI impI)
  show "p < length pre" using assms(2,5) by simp
  show "p = char_pos_draw rs" if "char_pos_draw rs < length pre" using that assms(5) by simp
  have r4: "randint (int (length mistakes)) (ind_draw rs) = Inr (ind_draw rs mod 4)"
    by (simp add: randint_def mistakes_def)
  have rp: "randint (int (length pre)) (char_pos_draw rs) = Inr p"
    using assms(2,5) by (simp add: randint_def)
  show "create_mistakes cs command vocab_trie level_of_noise rs =
         Inr (take p command @ [c] @ drop (p + 1) command)" if "kind = Swap \<and> cs \<noteq> []"
    using that assms(1,3,4,7) r4 rp by (simp add: create_mistakes_def choice_def)
  show "create_mistakes cs command vocab_trie level_of_noise rs =
         Inr (take p command @ drop (p + 1) command)" if "kind = Delition"
    using that assms(1,3,4) r4 rp by (simp add: create_mistakes_def)
  show "create_mistakes cs command vocab_trie level_of_noise rs =
         Inr (take p command @ [c] @ drop p command)" if "kind = Addition \<and> cs \<noteq> []"
    using that assms(1,3,4,7) r4 rp by (simp add: create_mistakes_def choice_def)
  show "q < length command - 1" if "kind = Transposition \<and> 2 \<le> length command"
  proof -
    from that have "0 < length command - 1" by simp
    then show ?thesis unfolding assms(6) by (rule mod_less_divisor)
  qed
  show "q = transposition_draw rs"
    if "kind = Transposition \<and> 2 \<le> length command" "transposition_draw rs < length command - 1"
    using that assms(6) by simp
  show "create_mistakes cs command vocab_trie level_of_noise rs =
         Inr (command[q := command ! (q + 1), q + 1 := command ! q])"
    if t: "kind = Transposition \<and> 2 \<le> length command"
  proof -
    from t have "transposition_draw rs mod (length command - 1) < length command - 1"
      by simp
    with assms(6) have q: "Suc q < length command" by simp
    have rq: "randint (int (length command) - 1) (transposition_draw rs) = Inr q"
      using t assms(6) by (simp add: randint_def nat_diff_distrib')
    from q have g: "getitem command (q + 1) = Inr (command ! Suc q)"
      "getitem command q = Inr (command ! q)"
      by (simp_all add: getitem_def)
    from t assms(1,3,4) r4 rp rq g
    have "create_mistakes cs command vocab_trie level_of_noise rs =
        Inr (take q command @ [command ! Suc q] @ [command ! q] @ drop (q + 2) command)"
      by (simp add: create_mistakes_def)
    with transpose_neighbours [OF q] show ?thesis by simp
  qed
qed

theorem create_mistakes_positions_witness:
  "create_mistakes ''xy'' ''abcd'' (\<lambda>command. Some ''ab'') 1
     \<lparr>ind_draw = 3, rand_draw = 0, char_pos_draw = 1, choice_draw = 0, transposition_draw = 2\<rparr>
     = Inr ''abdc'' \<and>
   create_mistakes ''xy'' ''abcd'' (\<lambda>command. Some ''ab'') 1
     \<lparr>ind_draw = 0, rand_draw = 0, char_pos_draw = 1, choice_draw = 0, transposition_draw = 2\<rparr>
     = Inr ''axcd''"
proof -
  let ?t = "(\<lambda>command. Some ''ab'') :: string \<Rightarrow> string option"
  let ?r3 = "\<lparr>ind_draw = 3, rand_draw = 0, char_pos_draw = 1, choice_draw = 0,
              transposition_draw = 2\<rparr>"
  let ?r0 = "\<lparr>ind_draw = 0, rand_draw = 0, char_pos_draw = 1, choice_draw = 0,
              transposition_draw = 2\<rparr>"
  have a: "create_mistakes ''xy'' ''abcd'' ?t 1 ?r3 = Inr ''abdc''"
    using create_mistakes_positions [of ?t "''abcd''" "''ab''" ?r3 1 Transposition 1 2 "CHR ''x''" "''xy''"]
    by (simp add: mistakes_def)
  have b: "create_mistakes ''xy'' ''abcd'' ?t 1 ?r0 = Inr ''axcd''"
    using create_mistakes_positions [of ?t "''abcd''" "''ab''" ?r0 1 Swap 1 2 "CHR ''x''" "''xy''"]
    by (simp add: mistakes_def)
  from a b show ?thesis by simp
qed

subsection \<open>Claims about the batch generator\<close>

lemma setitem_has_shape:
  assumes "setitem X i j k = Inr X'" "has_shape X (b, m, a)"
  shows "has_shape X' (b, m, a)"
proof -
  from assms(1) have X': "X' = X[i := (X ! i)[j := (X ! i ! j)[k := True]]]"
    and i: "i < length X" and j: "j < length (X ! i)"
    by (auto simp: setitem_def split: if_splits)
  from assms(2) have s: "length X = b" "\<forall>i<b. length (X ! i) = m \<and> (\<forall>q<m. length (X ! i ! q) = a)"
    by (simp_all add: has_shape_nth)
  show ?thesis
    unfolding has_shape_nth
  proof (intro conjI allI impI)
    show "length X' = b" using X' s(1) by simp
  next
    fix i' assume "i' < b"
    then show "length (X' ! i') = m"
      using X' s by (cases "i' = i") simp_all
  next
    fix i' q assume "i' < b" "q < m"
    then show "length (X' ! i' ! q) = a"
      using X' s by (cases "i' = i"; cases "q = j") simp_all
  qed
qed

lemma encode_cmd_has_shape:
  "encode_cmd self i j cmd X = Inr X' \<Longrightarrow> has_shape X (b, m, a) \<Longrightarrow> has_shape X' (b, m, a)"
proof (induction cmd arbitrary: j X)
  case Nil
  then show ?case by simp
next
  case (Cons c cmd)
  show ?case
  proof (cases "char_indices self c")
    case None
    with Cons.prems(1) have "encode_cmd self i (Suc j) cmd X = Inr X'" by simp
    then show ?thesis using Cons.prems(2) by (rule Cons.IH)
  next
    case (Some k)
    with Cons.prems(1) obtain X1 where s: "setitem X i j k = Inr X1"
      and r: "encode_cmd self i (Suc j) cmd X1 = Inr X'"
      by (auto split: sum.splits)
    from s Cons.prems(2) have "has_shape X1 (b, m, a)" by (rule setitem_has_shape)
    with r show ?thesis by (rule Cons.IH)
  qed
qed

lemma encode_cmds_has_shape:
  "encode_cmds self i commands X = Inr X' \<Longrightarrow> has_shape X (b, m, a) \<Longrightarrow> has_shape X' (b, m, a)"
proof (induction commands arbitrary: i X)
  case Nil
  then show ?case by simp
next
  case (Cons cmd commands)
  from Cons.prems(1) obtain X1 where c: "encode_cmd self i 0 cmd X = Inr X1"
    and r: "encode_cmds self (Suc i) commands X1 = Inr X'"
    by (auto split: sum.splits)
  from c Cons.prems(2) have "has_shape X1 (b, m, a)" by (rule encode_cmd_has_shape)
  with r show ?case by (rule Cons.IH)
qed

lemma encode_has_shape:
  "encode self commands max_cmd_len = Inr X \<Longrightarrow>
     has_shape X (length commands, max_cmd_len, length (self_chars self))"
  unfolding encode_def by (erule encode_cmds_has_shape) (rule has_shape_zeros)

lemma length_self_chars: "length (self_chars (Seq2seq_init cs)) = card (set cs)"
  by (simp add: self_chars_init)

lemma generator_step_shapes:
  assumes "generator_step cs f file_delimiter vocab_trie g rs = Inr (X, y)"
  shows "has_shape X (cfg_batch_size g, cfg_max_cmd_len g, card (set cs)) \<and>
         has_shape y (cfg_batch_size g, cfg_max_cmd_len g, card (set cs))"
proof -
  from assms have "\<exists>commands misspelled_commands.
      length misspelled_commands = cfg_batch_size g \<and> length commands = cfg_batch_size g \<and>
      encode (Seq2seq_init cs) misspelled_commands (cfg_max_cmd_len g) = Inr X \<and>
      encode (Seq2seq_init cs) commands (cfg_max_cmd_len g) = Inr y"
    by (auto simp: generator_step_def Let_def split: sum.splits prod.splits if_splits)
  then obtain commands misspelled_commands where
    l: "length misspelled_commands = cfg_batch_size g" "length commands = cfg_batch_size g"
    and X: "encode (Seq2seq_init cs) misspelled_commands (cfg_max_cmd_len g) = Inr X"
    and y: "encode (Seq2seq_init cs) commands (cfg_max_cmd_len g) = Inr y"
    by blast
  from encode_has_shape [OF X] encode_has_shape [OF y] l show ?thesis
    by (simp add: length_self_chars)
qed

text \<open>
  Claim C8. Every pair \<open>(X, y)\<close> the generator yields has
  \<open>X.shape = y.shape = (batch_size, max_cmd_len, alphabet_size)\<close>, where
  \<open>alphabet_size\<close> is the number of distinct characters of the inventory. The
  precondition of the claim always holds: the corpus filter leaves no line longer than
  \<open>max_cmd_len\<close>. A pass that raises (an empty corpus, a failed assertion, an
  IndexError of \<^verbatim>\<open>encode\<close>) yields nothing and ends the generator.
\<close>

theorem generator_shapes:
  "\<forall>Xy\<in>set (generator cs passes file_delimiter vocab_trie g).
     has_shape (fst Xy) (cfg_batch_size g, cfg_max_cmd_len g, card (set cs)) \<and>
     has_shape (snd Xy) (cfg_batch_size g, cfg_max_cmd_len g, card (set cs))"
proof (induction passes)
  case Nil
  show ?case by simp
next
  case (Cons pass passes)
  obtain f rs where pass: "pass = (f, rs)" by (cases pass)
  show ?case
  proof (cases "generator_step cs f file_delimiter vocab_trie g rs")
    case (Inl e)
    with pass show ?thesis by simp
  next
    case (Inr Xy)
    obtain X y where Xy: "Xy = (X, y)" by (cases Xy)
    from Inr Xy generator_step_shapes [of cs f file_delimiter vocab_trie g rs X y]
    have "has_shape (fst Xy) (cfg_batch_size g, cfg_max_cmd_len g, card (set cs)) \<and>
          has_shape (snd Xy) (cfg_batch_size g, cfg_max_cmd_len g, card (set cs))"
      by simp
    with Cons.IH Inr pass show ?thesis by simp
  qed
qed

lemma generator_example:
  "generator ''ab'' [([''ab\<newline>'', ''b\<newline>''], fixed_draws)] ''#\<newline>'' (\<lambda>command. Some command)
       \<lparr>cfg_max_cmd_len = 3, cfg_padding = ''$'', cfg_level_of_noise = 1 / 2, cfg_batch_size = 2,
        cfg_inverted = False\<rparr> =
     [([[[False, True], [False, False], [False, False]],
        [[False, False], [False, False], [False, False]]],
       [[[True, False], [False, True], [False, False]],
        [[False, True], [False, False], [False, False]]])]"
  by (simp add: generator_step_def corpus_lines_def strip_def rstrip_def isspace_def fixed_draws_def
      choice_def generate_input_def create_mistakes_def randint_def mistakes_def str_mul_def
      encode_def zeros_def setitem_def Seq2seq_init_def dict_def enumerate_eq_zip
      sorted_list_of_set_sort_remdups less_eq_char_def Let_def upt_rec numeral_2_eq_2 numeral_3_eq_3)

theorem generator_shapes_witness:
  "generator ''ab'' [([''ab\<newline>'', ''b\<newline>''], fixed_draws)] ''#\<newline>'' (\<lambda>command. Some command)
       \<lparr>cfg_max_cmd_len = 3, cfg_padding = ''$'', cfg_level_of_noise = 1 / 2, cfg_batch_size = 2,
        cfg_inverted = False\<rparr> =
     [([[[False, True], [False, False], [False, False]],
        [[False, False], [False, False], [False, False]]],
       [[[True, False], [False, True], [False, False]],
        [[False, True], [False, False], [False, False]]])] \<and>
   has_shape [[[False, True], [False, False], [False, False]],
              [[False, False], [False, False], [False, False]]] (2, 3, card (set ''ab'')) \<and>
   has_shape [[[True, False], [False, True], [False, False]],
              [[False, True], [False, False], [False, False]]] (2, 3, card (set ''ab''))"
  using generator_shapes [of "''ab''" "[([''ab\<newline>'', ''b\<newline>''], fixed_draws)]" "''#\<newline>''"
      "\<lambda>command. Some command"
      "\<lparr>cfg_max_cmd_len = 3, cfg_padding = ''$'', cfg_level_of_noise = 1 / 2, cfg_batch_size = 2,
        cfg_inverted = False\<rparr>"]
  unfolding generator_example by simp

subsection \<open>Claims about the round trip\<close>

lemma argmax_onehot:
  assumes "k0 < length v" "\<forall>k<length v. v ! k = (k = k0)"
  shows "argmax v = Inr k0"
proof -
  have "takeWhile (\<lambda>b. \<not> b) v = take k0 v"
    using assms by (intro takeWhile_eq_take_P_nth) auto
  moreover have "v ! k0" using assms by simp
  then have "True \<in> set v" using assms(1) by (auto simp: in_set_conv_nth)
  moreover have "v \<noteq> []" using assms(1) by auto
  ultimately show ?thesis using assms(1) by (simp add: argmax_def)
qed

lemma argmax_zero_slot:
  assumes "v \<noteq> []" "\<forall>k<length v. \<not> v ! k"
  shows "argmax v = Inr 0"
proof -
  from assms(2) have "True \<notin> set v" by (auto simp: in_set_conv_nth)
  with assms(1) show ?thesis by (simp add: argmax_def)
qed

lemma argmax_rows_list_all2:
  "list_all2 (\<lambda>v k. argmax v = Inr k) X A \<Longrightarrow> argmax_rows X = Inr A"
  by (induction rule: list_all2_induct) simp_all

lemma nonzero_snoc:
  "nonzero (A @ [x]) = nonzero A @ (if x \<noteq> 0 then [length A] else [])"
proof -
  have "filter (\<lambda>i. (A @ [x]) ! i \<noteq> 0) [0..<length A] = filter (\<lambda>i. A ! i \<noteq> 0) [0..<length A]"
    by (rule filter_cong) (auto simp: nth_append)
  then show ?thesis by (simp add: nonzero_def)
qed

lemma nonzero_bound: "i \<in> set (nonzero A) \<Longrightarrow> i < length A"
  by (simp add: nonzero_def)

lemma amax_nonzero:
  "\<exists>x\<in>set A. x \<noteq> 0 \<Longrightarrow>
     amax (nonzero A) = Inr (length (dropWhile (\<lambda>x. x = 0) (rev A)) - 1)"
proof (induction A rule: rev_induct)
  case Nil
  then show ?case by simp
next
  case (snoc x A)
  show ?case
  proof (cases "x = 0")
    case True
    with snoc.prems have "\<exists>x\<in>set A. x \<noteq> 0" by auto
    from snoc.IH [OF this] True show ?thesis by (simp add: nonzero_snoc)
  next
    case False
    have "Max (insert (length A) (set (nonzero A))) = length A"
      by (rule Max_eqI) (auto dest: nonzero_bound)
    with False show ?thesis by (simp add: nonzero_snoc amax_def)
  qed
qed

lemma append_chars_map:
  "\<forall>j\<in>set js. j < length A \<and> indices_char self (A ! j) = Some (g j) \<Longrightarrow>
     append_chars self A js command = Inr (command @ map g js)"
  by (induction js arbitrary: command) simp_all

lemma rev_dropWhile_rev_take:
  "rev (dropWhile P (rev s)) = take (length (dropWhile P (rev s))) s"
proof -
  have "rev s = takeWhile P (rev s) @ dropWhile P (rev s)" by simp
  then have "s = rev (dropWhile P (rev s)) @ rev (takeWhile P (rev s))"
    by (metis rev_append rev_rev_ident)
  then have "take (length (rev (dropWhile P (rev s)))) s = rev (dropWhile P (rev s))"
    by (metis append_eq_conv_conj)
  then show ?thesis by simp
qed

lemma decode_indices:
  assumes "\<exists>x\<in>set A. x \<noteq> 0"
    and "\<forall>j<length A. indices_char self (A ! j) = Some (g j)"
  shows "(case amax (nonzero A) of Inl e \<Rightarrow> Inl e
          | Inr end_of_command \<Rightarrow> append_chars self A [0..<end_of_command + 1] []) =
         Inr (map g [0..<length (dropWhile (\<lambda>x. x = 0) (rev A))])"
proof -
  let ?n = "length (dropWhile (\<lambda>x. x = 0) (rev A))"
  from assms(1) have "dropWhile (\<lambda>x. x = 0) (rev A) \<noteq> []"
    by auto
  then have n: "0 < ?n" by simp
  have le: "?n \<le> length A"
    using length_dropWhile_le [of "\<lambda>x. x = 0" "rev A"] by simp
  from n have e: "?n - 1 + 1 = ?n" by simp
  have "append_chars self A [0..<?n] [] = Inr ([] @ map g [0..<?n])"
    using assms(2) le by (intro append_chars_map) auto
  with amax_nonzero [OF assms(1)] e show ?thesis by simp
qed

lemma self_chars_0: "cs \<noteq> [] \<Longrightarrow> self_chars (Seq2seq_init cs) ! 0 = Min (set cs)"
  by (simp add: self_chars_init sorted_list_of_set_nonempty)

lemma char_indices_init_known:
  assumes "c \<in> set cs"
  shows "\<exists>k. char_indices (Seq2seq_init cs) c = Some k \<and>
             k < length (self_chars (Seq2seq_init cs)) \<and>
             indices_char (Seq2seq_init cs) k = Some c \<and>
             (k = 0 \<longleftrightarrow> c = Min (set cs))"
proof -
  let ?self = "Seq2seq_init cs"
  from assms have ne: "cs \<noteq> []" by auto
  from assms obtain k where k: "char_indices ?self c = Some k"
    using char_indices_init_None [of cs c] by auto
  then have b: "k < length (self_chars ?self)" and n: "self_chars ?self ! k = c"
    by (simp_all add: char_indices_init)
  have i: "indices_char ?self k = Some c" using b n by (simp add: indices_char_init)
  have z: "k = 0 \<longleftrightarrow> c = Min (set cs)"
  proof
    assume "k = 0"
    with n self_chars_0 [OF ne] show "c = Min (set cs)" by simp
  next
    assume "c = Min (set cs)"
    with self_chars_0 [OF ne] have "self_chars ?self ! 0 = c" by simp
    moreover from b have "0 < length (self_chars ?self)" by arith
    ultimately have "char_indices ?self c = Some 0" by (simp add: char_indices_init)
    with k show "k = 0" by simp
  qed
  from k b i z show ?thesis by blast
qed

lemma take_map_nth: "L \<le> length s \<Longrightarrow> map (\<lambda>j. s ! j) [0..<L] = take L s"
  by (simp add: list_eq_iff_nth_eq)

lemma roundtrip_trimmed:
  assumes sub: "set s \<subseteq> set cs" and len: "length s \<le> max_cmd_len"
    and nz: "\<exists>c\<in>set s. c \<noteq> Min (set cs)"
  shows "\<exists>X. encode (Seq2seq_init cs) [s] max_cmd_len = Inr X \<and>
           decode (Seq2seq_init cs) (Matrix (X ! 0)) max_cmd_len False =
             Inr (rev (dropWhile (\<lambda>c. c = Min (set cs)) (rev s)))"
proof -
  let ?self = "Seq2seq_init cs"
  let ?n = "length (self_chars ?self)"
  let ?c0 = "Min (set cs)"
  define idx where "idx c = the (char_indices ?self c)" for c
  have known: "char_indices ?self c = Some (idx c) \<and> idx c < ?n \<and>
      indices_char ?self (idx c) = Some c \<and> (idx c = 0 \<longleftrightarrow> c = ?c0)" if "c \<in> set cs" for c
    using char_indices_init_known [OF that] by (auto simp: idx_def)
  from nz sub have ne: "cs \<noteq> []" by auto
  from nz obtain c1 where c1: "c1 \<in> set s" "c1 \<noteq> ?c0" by blast
  with sub known [of c1] have npos: "0 < ?n" by auto
  have r: "\<forall>cmd\<in>set [s]. \<forall>j<length cmd.
      char_indices ?self (cmd ! j) \<noteq> None \<longrightarrow> j < max_cmd_len"
    using len by simp
  from encode_returns [OF char_indices_init_bound r]
  obtain X where X: "encode ?self [s] max_cmd_len = Inr X"
    "has_shape X (length [s], max_cmd_len, ?n)"
    "\<forall>i<length [s]. \<forall>j<max_cmd_len. \<forall>k<?n.
       X ! i ! j ! k = (j < length ([s] ! i) \<and> char_indices ?self ([s] ! i ! j) = Some k)"
    by blast
  define R where "R = X ! 0"
  from X(2) have lR: "length R = max_cmd_len" and lslot: "\<forall>j<max_cmd_len. length (R ! j) = ?n"
    by (simp_all add: has_shape_nth R_def)
  from X(3) have bits: "\<forall>j<max_cmd_len. \<forall>k<?n.
      R ! j ! k = (j < length s \<and> char_indices ?self (s ! j) = Some k)"
    by (simp add: R_def)
  define A where "A = map idx s @ replicate (max_cmd_len - length s) 0"
  have lA: "length A = max_cmd_len" using len by (simp add: A_def)
  have "list_all2 (\<lambda>v k. argmax v = Inr k) R A"
    unfolding list_all2_conv_all_nth
  proof (intro conjI allI impI)
    show "length R = length A" using lR lA by simp
  next
    fix j assume "j < length R"
    with lR have j: "j < max_cmd_len" by simp
    show "argmax (R ! j) = Inr (A ! j)"
    proof (cases "j < length s")
      case True
      then have "s ! j \<in> set cs" using sub by auto
      from known [OF this] have k: "char_indices ?self (s ! j) = Some (idx (s ! j))"
        "idx (s ! j) < ?n" by simp_all
      have "argmax (R ! j) = Inr (idx (s ! j))"
      proof (rule argmax_onehot)
        show "idx (s ! j) < length (R ! j)" using k(2) lslot j by simp
        show "\<forall>k<length (R ! j). R ! j ! k = (k = idx (s ! j))"
          using bits j lslot True k(1) by auto
      qed
      with True show ?thesis by (simp add: A_def nth_append)
    next
      case False
      have "argmax (R ! j) = Inr 0"
      proof (rule argmax_zero_slot)
        show "R ! j \<noteq> []" using lslot j npos by auto
        show "\<forall>k<length (R ! j). \<not> R ! j ! k" using bits j lslot False by simp
      qed
      with False j show ?thesis by (simp add: A_def nth_append)
    qed
  qed
  then have rows: "argmax_rows R = Inr A" by (rule argmax_rows_list_all2)
  define g where "g j = (if j < length s then s ! j else self_chars ?self ! 0)" for j
  have ex: "\<exists>x\<in>set A. x \<noteq> 0"
  proof -
    from c1 sub known [of c1] have "idx c1 \<noteq> 0" by auto
    moreover have "idx c1 \<in> set A" using c1(1) by (simp add: A_def)
    ultimately show ?thesis by blast
  qed
  have ind: "\<forall>j<length A. indices_char ?self (A ! j) = Some (g j)"
  proof (intro allI impI)
    fix j assume "j < length A"
    show "indices_char ?self (A ! j) = Some (g j)"
    proof (cases "j < length s")
      case True
      then have "s ! j \<in> set cs" using sub by auto
      from known [OF this] True show ?thesis by (simp add: A_def nth_append g_def)
    next
      case False
      with \<open>j < length A\<close> have "A ! j = 0" by (simp add: A_def nth_append)
      with False npos show ?thesis by (simp add: indices_char_init g_def)
    qed
  qed
  let ?L = "length (dropWhile (\<lambda>c. c = ?c0) (rev s))"
  have "dropWhile (\<lambda>x. x = 0) (replicate (max_cmd_len - length s) 0 @ map idx (rev s)) =
        dropWhile (\<lambda>x. x = 0) (map idx (rev s))"
    by (rule dropWhile_append2) simp
  then have "dropWhile (\<lambda>x. x = 0) (rev A) = dropWhile (\<lambda>x. x = 0) (map idx (rev s))"
    by (simp add: A_def rev_map)
  also have "\<dots> = map idx (dropWhile ((\<lambda>x. x = 0) \<circ> idx) (rev s))"
    by (simp add: dropWhile_map)
  also have "dropWhile ((\<lambda>x. x = 0) \<circ> idx) (rev s) = dropWhile (\<lambda>c. c = ?c0) (rev s)"
  proof (rule dropWhile_cong)
    show "rev s = rev s" by simp
    fix c assume "c \<in> set (rev s)"
    then have "c \<in> set cs" using sub by auto
    from known [OF this] show "((\<lambda>x. x = 0) \<circ> idx) c = (c = ?c0)" by simp
  qed
  finally have L: "length (dropWhile (\<lambda>x. x = 0) (rev A)) = ?L" by simp
  have Ls: "?L \<le> length s" using length_dropWhile_le [of "\<lambda>c. c = ?c0" "rev s"] by simp
  have "map g [0..<?L] = map (\<lambda>j. s ! j) [0..<?L]"
    using Ls by (auto simp: g_def)
  also have "\<dots> = take ?L s" using Ls by (rule take_map_nth)
  also have "\<dots> = rev (dropWhile (\<lambda>c. c = ?c0) (rev s))"
    by (simp add: rev_dropWhile_rev_take [symmetric])
  finally have res: "map g [0..<?L] = rev (dropWhile (\<lambda>c. c = ?c0) (rev s))" .
  from decode_indices [OF ex ind] rows L res
  have "decode ?self (Matrix R) max_cmd_len False =
      Inr (rev (dropWhile (\<lambda>c. c = ?c0) (rev s)))"
    by simp
  with X(1) show ?thesis unfolding R_def by blast
qed

text \<open>
  Claim C1, amended. \<^verbatim>\<open>decode\<close> reads an index \<open>0\<close> after \<^verbatim>\<open>argmax\<close> as padding,
  and index \<open>0\<close> is also the index of the smallest character of the inventory. For every
  string \<open>s\<close> of length at most \<open>max_cmd_len\<close> whose characters are all in the inventory
  and which has a character other than the smallest one of the inventory, decoding the row
  that \<^verbatim>\<open>encode\<close> produced for \<open>s\<close> (\<^verbatim>\<open>reduction=True\<close>, \<^verbatim>\<open>inverted=False\<close>) returns
  \<open>s\<close> without its trailing occurrences of that smallest character; it returns exactly
  \<open>s\<close> when \<open>s\<close> does not end with it. The strings without such a character encode to
  a row on which \<^verbatim>\<open>decode\<close> raises (claim C3); nothing is said about them here.
\<close>

theorem roundtrip:
  assumes "set s \<subseteq> set cs" and "length s \<le> max_cmd_len"
    and "\<exists>c\<in>set s. c \<noteq> Min (set cs)"
  shows "\<exists>X. encode (Seq2seq_init cs) [s] max_cmd_len = Inr X \<and>
           decode (Seq2seq_init cs) (Matrix (X ! 0)) max_cmd_len False =
             Inr (rev (dropWhile (\<lambda>c. c = Min (set cs)) (rev s))) \<and>
           (last s \<noteq> Min (set cs) \<longrightarrow>
              decode (Seq2seq_init cs) (Matrix (X ! 0)) max_cmd_len False = Inr s)"
proof -
  from roundtrip_trimmed [OF assms] obtain X where
    X: "encode (Seq2seq_init cs) [s] max_cmd_len = Inr X"
    "decode (Seq2seq_init cs) (Matrix (X ! 0)) max_cmd_len False =
       Inr (rev (dropWhile (\<lambda>c. c = Min (set cs)) (rev s)))"
    by blast
  from assms(3) have ne: "s \<noteq> []" by auto
  have "dropWhile (\<lambda>c. c = Min (set cs)) (rev s) = rev s" if "last s \<noteq> Min (set cs)"
    using that ne by (cases s rule: rev_cases) simp_all
  with X show ?thesis by auto
qed

theorem roundtrip_witness:
  "\<exists>X. encode (Seq2seq_init ''- ls'') [''ls -l''] 10 = Inr X \<and>
       decode (Seq2seq_init ''- ls'') (Matrix (X ! 0)) 10 False = Inr ''ls -l''"
proof -
  have m: "Min (set ''- ls'') = CHR '' ''"
    by (simp add: less_eq_char_def)
  have a: "set ''ls -l'' \<subseteq> set ''- ls''" by auto
  have b: "length ''ls -l'' \<le> 10" by simp
  have c: "\<exists>c\<in>set ''ls -l''. c \<noteq> Min (set ''- ls'')" unfolding m by simp
  from roundtrip [OF a b c] show ?thesis unfolding m by auto
qed

text \<open>
  Claim C1, as stated, fails. With the inventory \<open>{a, b}\<close> and \<open>max_cmd_len = 2\<close>, the
  string \<open>ba\<close> is encoded without loss, but its last character has index \<open>0\<close> and is
  taken for padding: decoding returns \<open>b\<close>.
\<close>

theorem roundtrip_loses_trailing_first_char:
  "set ''ba'' \<subseteq> set ''ab'' \<and> length ''ba'' \<le> 2 \<and>
   encode (Seq2seq_init ''ab'') [''ba''] 2 = Inr [[[False, True], [True, False]]] \<and>
   decode (Seq2seq_init ''ab'') (Matrix [[False, True], [True, False]]) 2 False = Inr ''b''"
  by (simp add: encode_def zeros_def setitem_def Seq2seq_init_def dict_def enumerate_eq_zip
      sorted_list_of_set_sort_remdups less_eq_char_def argmax_def nonzero_def amax_def
      numeral_2_eq_2)

end
